theory Spec2Isabelle
  imports Main
begin

section \<open>The four-stage compiler of \<^verbatim>\<open>src/compiler.ts\<close>\<close>

text \<open>
  The source is one TypeScript file: \<^verbatim>\<open>tokenizer\<close>, \<^verbatim>\<open>parser\<close>,
  \<^verbatim>\<open>transform\<close> (with \<^verbatim>\<open>traversal\<close> and \<^verbatim>\<open>visitor\<close>),
  \<^verbatim>\<open>codeGenerator\<close> and \<^verbatim>\<open>compile\<close>, their composition. Each function is
  translated below under its own name.

  A JavaScript string is a \<open>string\<close> here, one \<open>char\<close> per code unit (code units below
  256). A failure of the program is a value of type \<open>error\<close>: the \<^verbatim>\<open>throw\<close>
  statements of the tokenizer (line 91), the parser (line 165) and the traversal (line 265)
  each have a constructor, carrying the message given to \<^verbatim>\<open>new TypeError\<close>, and
  \<open>ReadOfUndefined p\<close> is the error the runtime itself raises when the code reads
  property \<open>p\<close> of \<^verbatim>\<open>undefined\<close> or \<^verbatim>\<open>null\<close>. A loop that does not end is the
  value \<open>None\<close>.
\<close>

datatype error =
    TokenizerThrow string
  | ParserThrow string
  | TraversalThrow string
  | ReadOfUndefined string

fun is_ParserThrow :: "error \<Rightarrow> bool" where
  "is_ParserThrow (ParserThrow msg) = True"
| "is_ParserThrow (TokenizerThrow msg) = False"
| "is_ParserThrow (TraversalThrow msg) = False"
| "is_ParserThrow (ReadOfUndefined property) = False"

subsection \<open>Step 1: tokenizer\<close>

record Token =
  tk_type :: string
  tk_value :: string

text \<open>
  \<open>char_at input i\<close> is \<^verbatim>\<open>input[i]\<close>: \<open>None\<close> stands for \<^verbatim>\<open>undefined\<close>, the value of
  an index past the end. \<open>to_String\<close> is the conversion JavaScript applies to that value
  when it is appended to a string or handed to \<^verbatim>\<open>RegExp.test\<close>.
\<close>

definition char_at :: "string \<Rightarrow> nat \<Rightarrow> char option" where
  "char_at input i = (if i < length input then Some (input ! i) else None)"

definition to_String :: "char option \<Rightarrow> string" where
  "to_String c = (case c of None \<Rightarrow> ''undefined'' | Some ch \<Rightarrow> [ch])"

text \<open>
  The three regular expressions are character classes without anchors, so \<^verbatim>\<open>test\<close>
  holds when some character of the string is in the class.
\<close>

definition is_space :: "char \<Rightarrow> bool" where
  "is_space c = (of_char c \<in> {9, 10, 11, 12, 13, 32, 160 :: nat})"

definition is_digit :: "char \<Rightarrow> bool" where
  "is_digit c = (48 \<le> (of_char c :: nat) \<and> (of_char c :: nat) \<le> 57)"

definition is_letter :: "char \<Rightarrow> bool" where
  "is_letter c = ((65 \<le> (of_char c :: nat) \<and> (of_char c :: nat) \<le> 90) \<or>
                  (97 \<le> (of_char c :: nat) \<and> (of_char c :: nat) \<le> 122))"

definition WHITESPACE :: "string \<Rightarrow> bool" where
  "WHITESPACE s = list_ex is_space s"

definition NUMBERS :: "string \<Rightarrow> bool" where
  "NUMBERS s = list_ex is_digit s"

definition LETTERS :: "string \<Rightarrow> bool" where
  "LETTERS s = list_ex is_letter s"

text \<open>
  The inner loops. In the source the variable \<^verbatim>\<open>char\<close> is \<^verbatim>\<open>input[curr]\<close> at
  every test of a loop condition, so the loops below carry \<open>cur\<close> and \<open>val\<close> (the
  source's \<^verbatim>\<open>curr\<close> and \<^verbatim>\<open>value\<close>) and read the character. Past the end of the
  input the character is \<^verbatim>\<open>undefined\<close>: no loop of the source tests for the end.
  Lines 44 to 47 (digits):
\<close>

lemma NUMBERS_in_range:
  "NUMBERS (to_String (char_at input cur)) \<Longrightarrow> cur < length input"
  by (auto simp: NUMBERS_def to_String_def char_at_def is_digit_def split: if_splits)

function scan_number :: "string \<Rightarrow> nat \<Rightarrow> string \<Rightarrow> nat \<times> string" where
  "scan_number input cur val =
     (if NUMBERS (to_String (char_at input cur))
      then scan_number input (cur + 1) (val @ to_String (char_at input cur))
      else (cur, val))"
  by pat_completeness auto
termination
  by (relation "measure (\<lambda>(input, cur, val). length input - cur)")
     (auto dest: NUMBERS_in_range)

declare scan_number.simps [simp del]

text \<open>Lines 80 to 83 (letters):\<close>

partial_function (option) scan_name :: "string \<Rightarrow> nat \<Rightarrow> string \<Rightarrow> (nat \<times> string) option" where
  "scan_name input cur val =
     (if LETTERS (to_String (char_at input cur))
      then scan_name input (cur + 1) (val @ to_String (char_at input cur))
      else Some (cur, val))"

text \<open>Lines 63 to 66 (the characters of a quoted string, up to the closing quote):\<close>

partial_function (option) scan_string :: "string \<Rightarrow> char \<Rightarrow> nat \<Rightarrow> string \<Rightarrow> (nat \<times> string) option" where
  "scan_string input quote cur val =
     (if char_at input cur \<noteq> Some quote
      then scan_string input quote (cur + 1) (val @ to_String (char_at input cur))
      else Some (cur, val))"

text \<open>The main loop, lines 16 to 92, and the function itself.\<close>

partial_function (option) tokenizer_loop ::
  "string \<Rightarrow> nat \<Rightarrow> Token list \<Rightarrow> (error + Token list) option" where
  "tokenizer_loop input cur tokens =
     (if cur < length input then
        (let char = input ! cur in
         if char = CHR ''('' \<or> char = CHR '')'' then
           tokenizer_loop input (cur + 1)
             (tokens @ [\<lparr>tk_type = ''parenthesis'', tk_value = [char]\<rparr>])
         else if WHITESPACE [char] then
           tokenizer_loop input (cur + 1) tokens
         else if NUMBERS [char] then
           (case scan_number input cur [] of (cur', val) \<Rightarrow>
              tokenizer_loop input cur' (tokens @ [\<lparr>tk_type = ''number'', tk_value = val\<rparr>]))
         else if char = CHR 0x22 \<or> char = CHR 0x27 then
           Option.bind (scan_string input char (cur + 1) [])
             (\<lambda>(cur', val).
                tokenizer_loop input (cur' + 1)
                  (tokens @ [\<lparr>tk_type = ''string'', tk_value = val\<rparr>]))
         else if LETTERS [char] then
           Option.bind (scan_name input cur [])
             (\<lambda>(cur', val).
                tokenizer_loop input cur' (tokens @ [\<lparr>tk_type = ''name'', tk_value = val\<rparr>]))
         else Some (Inl (TokenizerThrow (''Syntax error : '' @ [char]))))
      else Some (Inr tokens))"

definition tokenizer :: "string \<Rightarrow> (error + Token list) option" where
  "tokenizer input = tokenizer_loop input 0 []"

declare scan_name.simps [code] scan_string.simps [code] tokenizer_loop.simps [code]

subsection \<open>Step 2: parser\<close>

text \<open>
  The parser builds four kinds of node object. Each is a constructor below, with the
  fields the parser gives it; \<open>node_type\<close> is the string the parser writes into the
  \<^verbatim>\<open>type\<close> field of the object (lines 120, 130, 145 and 170).
\<close>

datatype ASTNode =
    Program "ASTNode list"
  | NumberLiteral (node_value: string)
  | stringLiteral (node_value: string)
  | CallExpression (node_name: string) "ASTNode list"

fun node_type :: "ASTNode \<Rightarrow> string" where
  "node_type (Program body) = ''Program''"
| "node_type (NumberLiteral v) = ''NumberLiteral''"
| "node_type (stringLiteral v) = ''stringLiteral''"
| "node_type (CallExpression name params) = ''CallExpression''"

text \<open>\<open>token_at tokens i\<close> is \<^verbatim>\<open>tokens[i]\<close>, \<open>None\<close> for \<^verbatim>\<open>undefined\<close>.\<close>

definition token_at :: "Token list \<Rightarrow> nat \<Rightarrow> Token option" where
  "token_at tokens i = (if i < length tokens then Some (tokens ! i) else None)"

text \<open>
  \<open>walk\<close> is the closure of lines 111 to 167; the cursor it shares with \<^verbatim>\<open>parser\<close>
  is passed in and returned. \<open>walk_params\<close> is its \<^verbatim>\<open>while\<close> loop (lines 153 to 157):
  the variable \<^verbatim>\<open>token\<close> is \<^verbatim>\<open>tokens[curr]\<close> at every test of the condition.
  Reading \<^verbatim>\<open>token.type\<close> or \<^verbatim>\<open>token.value\<close> of a token past the end is the
  runtime's error.
\<close>

function walk :: "Token list \<Rightarrow> nat \<Rightarrow> error + (ASTNode \<times> nat)"
  and walk_params :: "Token list \<Rightarrow> nat \<Rightarrow> ASTNode list \<Rightarrow> error + (ASTNode list \<times> nat)"
where
  "walk tokens cur =
     (case token_at tokens cur of
        None \<Rightarrow> Inl (ReadOfUndefined ''type'')
      | Some token \<Rightarrow>
          if tk_type token = ''number'' then Inr (NumberLiteral (tk_value token), cur + 1)
          else if tk_type token = ''string'' then Inr (stringLiteral (tk_value token), cur + 1)
          else if tk_type token = ''parenthesis'' \<and> tk_value token = ''('' then
            (case token_at tokens (cur + 1) of
               None \<Rightarrow> Inl (ReadOfUndefined ''value'')
             | Some name_token \<Rightarrow>
                 (case walk_params tokens (cur + 2) [] of
                    Inl e \<Rightarrow> Inl e
                  | Inr (params, cur') \<Rightarrow>
                      Inr (CallExpression (tk_value name_token) params, cur' + 1)))
          else Inl (ParserThrow (tk_type token)))"
| "walk_params tokens cur params =
     (case token_at tokens cur of
        None \<Rightarrow> Inl (ReadOfUndefined ''type'')
      | Some token \<Rightarrow>
          if tk_type token \<noteq> ''parenthesis'' \<or>
             (tk_type token = ''parenthesis'' \<and> tk_value token \<noteq> '')'')
          then (case walk tokens cur of
                  Inl e \<Rightarrow> Inl e
                | Inr (node, cur') \<Rightarrow> walk_params tokens cur' (params @ [node]))
          else Inr (params, cur))"
  by pat_completeness auto

lemma walk_advances_dom:
  "walk_walk_params_dom (Inl (tokens, cur)) \<Longrightarrow>
     walk tokens cur = Inr (node, cur') \<Longrightarrow> cur < cur'"
  "walk_walk_params_dom (Inr (tokens, cur, params)) \<Longrightarrow>
     walk_params tokens cur params = Inr (params', cur') \<Longrightarrow> cur \<le> cur'"
proof (induction tokens cur and tokens cur params arbitrary: node cur' and params' cur'
       rule: walk_walk_params.pinduct)
  case (1 tokens cur)
  then show ?case
    by (fastforce simp: walk.psimps split: option.splits if_splits sum.splits prod.splits)
next
  case (2 tokens cur params)
  then show ?case
    by (fastforce simp: walk_params.psimps split: option.splits if_splits sum.splits prod.splits)
qed

termination walk
proof (relation "measure (\<lambda>x. case x of
          Inl (tokens, cur) \<Rightarrow> 2 * (length tokens - cur)
        | Inr (tokens, cur, params) \<Rightarrow> 2 * (length tokens - cur) + 1)")
  show "wf (measure (\<lambda>x. case x of
          Inl (tokens, cur) \<Rightarrow> 2 * (length tokens - cur)
        | Inr (tokens, cur, params) \<Rightarrow> 2 * (length tokens - cur) + 1))"
    by simp
next
  fix tokens :: "Token list" and cur :: nat and x2 x2a
  assume "token_at tokens cur = Some x2"
  then have "cur < length tokens"
    by (simp add: token_at_def split: if_splits)
  then show "(Inr (tokens, cur + 2, []), Inl (tokens, cur))
      \<in> measure (\<lambda>x. case x of
          Inl (tokens, cur) \<Rightarrow> 2 * (length tokens - cur)
        | Inr (tokens, cur, params) \<Rightarrow> 2 * (length tokens - cur) + 1)"
    by simp
next
  fix tokens :: "Token list" and cur :: nat and params :: "ASTNode list" and x2
  show "(Inl (tokens, cur), Inr (tokens, cur, params))
      \<in> measure (\<lambda>x. case x of
          Inl (tokens, cur) \<Rightarrow> 2 * (length tokens - cur)
        | Inr (tokens, cur, params) \<Rightarrow> 2 * (length tokens - cur) + 1)"
    by simp
next
  fix tokens :: "Token list" and cur :: nat and params :: "ASTNode list"
    and x2 x2a x y
  assume tok: "token_at tokens cur = Some x2"
    and res: "walk tokens cur = Inr x2a" "(x, y) = x2a"
    and dom: "walk_walk_params_dom (Inl (tokens, cur))"
  from tok have "cur < length tokens"
    by (simp add: token_at_def split: if_splits)
  moreover from res dom have "cur < y"
    using walk_advances_dom(1) [of tokens cur x y] by simp
  ultimately show "(Inr (tokens, y, params @ [x]), Inr (tokens, cur, params))
      \<in> measure (\<lambda>x. case x of
          Inl (tokens, cur) \<Rightarrow> 2 * (length tokens - cur)
        | Inr (tokens, cur, params) \<Rightarrow> 2 * (length tokens - cur) + 1)"
    by simp
qed

declare walk.simps [simp del] walk_params.simps [simp del]

lemma walk_advances:
  "walk tokens cur = Inr (node, cur') \<Longrightarrow> cur < cur'"
  "walk_params tokens cur params = Inr (params', cur') \<Longrightarrow> cur \<le> cur'"
proof (induction tokens cur and tokens cur params arbitrary: node cur' and params' cur'
       rule: walk_walk_params.induct)
  case (1 tokens cur)
  from "1.prems" show ?case
    unfolding walk.simps [of tokens cur]
    by (fastforce split: option.splits if_splits sum.splits prod.splits dest: "1.IH")
next
  case (2 tokens cur params)
  from "2.prems" obtain token where tok: "token_at tokens cur = Some token"
    unfolding walk_params.simps [of tokens cur params]
    by (auto split: option.splits)
  show ?case
  proof (cases "tk_type token \<noteq> ''parenthesis'' \<or>
             (tk_type token = ''parenthesis'' \<and> tk_value token \<noteq> '')'')")
    case True
    with "2.prems" tok obtain n c where w: "walk tokens cur = Inr (n, c)"
      and rest: "walk_params tokens c (params @ [n]) = Inr (params', cur')"
      unfolding walk_params.simps [of tokens cur params]
      by (auto split: sum.splits prod.splits)
    from "2.IH"(1) [OF tok True w] have "cur < c" .
    moreover from "2.IH"(2) [OF tok True w refl rest] have "c \<le> cur'" .
    ultimately show ?thesis by simp
  next
    case False
    with "2.prems" tok show ?thesis
      unfolding walk_params.simps [of tokens cur params]
      by auto
  qed
qed

text \<open>The loop of lines 174 to 176, and the function itself.\<close>

function parser_loop :: "Token list \<Rightarrow> nat \<Rightarrow> ASTNode list \<Rightarrow> error + ASTNode list" where
  "parser_loop tokens cur body =
     (if cur < length tokens
      then (case walk tokens cur of
              Inl e \<Rightarrow> Inl e
            | Inr (node, cur') \<Rightarrow> parser_loop tokens cur' (body @ [node]))
      else Inr body)"
  by pat_completeness auto
termination
  by (relation "measure (\<lambda>(tokens, cur, body). length tokens - cur)")
     (auto dest: walk_advances(1))

declare parser_loop.simps [simp del]

definition parser :: "Token list \<Rightarrow> error + ASTNode" where
  "parser tokens =
     (case parser_loop tokens 0 [] of Inl e \<Rightarrow> Inl e | Inr body \<Rightarrow> Inr (Program body))"

subsection \<open>Step 3: transform\<close>

text \<open>
  The nodes of the new tree are the six kinds of object that \<^verbatim>\<open>transform\<close> and the
  \<^verbatim>\<open>visitor\<close> build: their \<^verbatim>\<open>type\<close> fields are the six cases of the
  \<^verbatim>\<open>switch\<close> in \<^verbatim>\<open>codeGenerator\<close>.
\<close>

datatype transFormedASTNode =
    TProgram "transFormedASTNode list"
  | TExpressionStatement transFormedASTNode
  | TCallExpression transFormedASTNode "transFormedASTNode list"
  | TIdentifier string
  | TNumberLiteral string
  | TStringLiteral string

text \<open>
  The field \<^verbatim>\<open>_context\<close> of a node is an array of new nodes, or \<^verbatim>\<open>undefined\<close>
  (\<open>None\<close>) on a node that nothing has given one. \<open>push ctx x\<close> is
  \<^verbatim>\<open>ctx?.push(x)\<close>.
\<close>

type_synonym "context" = "transFormedASTNode list option"

fun push :: "context \<Rightarrow> transFormedASTNode \<Rightarrow> context" where
  "push None x = None"
| "push (Some arr) x = Some (arr @ [x])"

text \<open>
  The \<^verbatim>\<open>visitor\<close> table, by key as the source writes it, and the three
  \<^verbatim>\<open>enter\<close> methods. A method is handed the node, its parent (\<open>None\<close> for
  \<^verbatim>\<open>null\<close>) and the parent's \<^verbatim>\<open>_context\<close> (\<open>None\<close> as well when the parent is
  \<^verbatim>\<open>null\<close>). It returns the node's own \<^verbatim>\<open>_context\<close> as it leaves it, and the
  parent's \<^verbatim>\<open>_context\<close> after the push.

  In \<^verbatim>\<open>CallExpression.enter\<close> the \<^verbatim>\<open>arguments\<close> array of the new expression and
  the node's \<^verbatim>\<open>_context\<close> are one array: what the traversal of the children appends
  to the node's \<^verbatim>\<open>_context\<close> afterwards is in the expression that was pushed. The
  pushed element is therefore a function of the final content of that array.

  The methods read \<^verbatim>\<open>node.value\<close> and \<^verbatim>\<open>node.name\<close>, the selectors \<open>node_value\<close>
  and \<open>node_name\<close>: a method is reached through the node's own type, and the nodes of
  the types \<^verbatim>\<open>NumberLiteral\<close> and \<^verbatim>\<open>CallExpression\<close> have the field read.
\<close>

datatype methods = NumberLiteral_methods | StringLiteral_methods | CallExpression_methods

definition visitor :: "string \<Rightarrow> methods option" where
  "visitor key =
     (if key = ''NumberLiteral'' then Some NumberLiteral_methods
      else if key = ''StringLiteral'' then Some StringLiteral_methods
      else if key = ''CallExpression'' then Some CallExpression_methods
      else None)"

fun arguments_of :: "context \<Rightarrow> transFormedASTNode list" where
  "arguments_of (Some arr) = arr"
| "arguments_of None = []"

fun enter ::
  "methods \<Rightarrow> ASTNode \<Rightarrow> ASTNode option \<Rightarrow> context \<Rightarrow> context \<Rightarrow>
     error + (context \<times> (context \<Rightarrow> context))" where
  "enter NumberLiteral_methods node parent node_context parent_context =
     Inr (node_context, \<lambda>final. push parent_context (TNumberLiteral (node_value node)))"
| "enter StringLiteral_methods node parent node_context parent_context =
     Inr (node_context, \<lambda>final. push parent_context (TStringLiteral (node_value node)))"
| "enter CallExpression_methods node parent node_context parent_context =
     (case parent of
        None \<Rightarrow> Inl (ReadOfUndefined ''type'')
      | Some p \<Rightarrow>
          Inr (Some [],
               \<lambda>final.
                 let expression = TCallExpression (TIdentifier (node_name node)) (arguments_of final)
                 in push parent_context
                      (if node_type p \<noteq> ''CallExpression''
                       then TExpressionStatement expression else expression)))"

text \<open>
  \<open>nodeTraversal\<close> and \<open>arrayTraversal\<close> are the two closures of \<^verbatim>\<open>traversal\<close>
  (lines 239 to 271). \<open>nodeTraversal node node_context parent parent_context\<close> returns the
  \<^verbatim>\<open>_context\<close> of the node and of its parent as the call leaves them. The
  \<^verbatim>\<open>switch\<close> of lines 254 to 266 compares the node's type with \<^verbatim>\<open>Program\<close>,
  \<^verbatim>\<open>CallExpression\<close>, \<^verbatim>\<open>NumberLiteral\<close> and \<^verbatim>\<open>StringLiteral\<close>, and throws on
  any other. No entry of the table has an \<^verbatim>\<open>exit\<close> method, so lines 268 to 270 do
  nothing. A child is a node as the parser built it, with no \<^verbatim>\<open>_context\<close> yet.
\<close>

fun nodeTraversal ::
  "ASTNode \<Rightarrow> context \<Rightarrow> ASTNode option \<Rightarrow> context \<Rightarrow> error + (context \<times> context)"
  and arrayTraversal :: "ASTNode list \<Rightarrow> ASTNode \<Rightarrow> context \<Rightarrow> error + context"
where
  "nodeTraversal node node_context parent parent_context =
     (case (case visitor (node_type node) of
              None \<Rightarrow> Inr (node_context, \<lambda>final. parent_context)
            | Some methods \<Rightarrow> enter methods node parent node_context parent_context) of
        Inl e \<Rightarrow> Inl e
      | Inr (entered, pushed) \<Rightarrow>
          (case (if node_type node = ''Program'' then
                   (case node of
                      Program body \<Rightarrow> arrayTraversal body node entered
                    | _ \<Rightarrow> Inl (ReadOfUndefined ''forEach''))
                 else if node_type node = ''CallExpression'' then
                   (case node of
                      CallExpression name params \<Rightarrow> arrayTraversal params node entered
                    | _ \<Rightarrow> Inl (ReadOfUndefined ''forEach''))
                 else if node_type node = ''NumberLiteral'' \<or> node_type node = ''StringLiteral''
                 then Inr entered
                 else Inl (TraversalThrow (node_type node))) of
             Inl e \<Rightarrow> Inl e
           | Inr final \<Rightarrow> Inr (final, pushed final)))"
| "arrayTraversal [] parent parent_context = Inr parent_context"
| "arrayTraversal (child # arr) parent parent_context =
     (case nodeTraversal child None (Some parent) parent_context of
        Inl e \<Rightarrow> Inl e
      | Inr (child_context, parent_context') \<Rightarrow> arrayTraversal arr parent parent_context')"

declare nodeTraversal.simps [simp del]

text \<open>
  \<^verbatim>\<open>transform\<close> (lines 279 to 290): the root's \<^verbatim>\<open>_context\<close> is the \<^verbatim>\<open>body\<close>
  array of the new program, and the root is traversed with no parent.
\<close>

definition transform :: "ASTNode \<Rightarrow> error + transFormedASTNode" where
  "transform ast =
     (case nodeTraversal ast (Some []) None None of
        Inl e \<Rightarrow> Inl e
      | Inr (body, none) \<Rightarrow> Inr (TProgram (arguments_of body)))"

subsection \<open>Step 4: codeGenerator\<close>

text \<open>\<open>join arr sep\<close> is \<^verbatim>\<open>arr.join(sep)\<close> on an array of strings.\<close>

fun join :: "string list \<Rightarrow> string \<Rightarrow> string" where
  "join [] sep = []"
| "join [x] sep = x"
| "join (x # y # ys) sep = x @ sep @ join (y # ys) sep"

text \<open>
  One equation for each \<^verbatim>\<open>case\<close> of the \<^verbatim>\<open>switch\<close> (lines 295 to 327). The
  \<^verbatim>\<open>default\<close> case is for a \<^verbatim>\<open>type\<close> that none of the six kinds of node has.
\<close>

fun codeGenerator :: "transFormedASTNode \<Rightarrow> string" where
  "codeGenerator (TProgram body) = join (map codeGenerator body) [CHR 0x0A]"
| "codeGenerator (TExpressionStatement expression) = codeGenerator expression @ '';''"
| "codeGenerator (TCallExpression callee arguments) =
     codeGenerator callee @ ''('' @ join (map codeGenerator arguments) '', '' @ '')''"
| "codeGenerator (TIdentifier name) = name"
| "codeGenerator (TNumberLiteral v) = v"
| "codeGenerator (TStringLiteral v) = [CHR 0x22] @ v @ [CHR 0x22]"

subsection \<open>compile\<close>

definition compile :: "string \<Rightarrow> (error + string) option" where
  "compile input =
     (case tokenizer input of
        None \<Rightarrow> None
      | Some (Inl e) \<Rightarrow> Some (Inl e)
      | Some (Inr tokens) \<Rightarrow>
          (case parser tokens of
             Inl e \<Rightarrow> Some (Inl e)
           | Inr ast \<Rightarrow>
               (case transform ast of
                  Inl e \<Rightarrow> Some (Inl e)
                | Inr newAST \<Rightarrow> Some (Inr (codeGenerator newAST)))))"

text \<open>\<open>fails_with P r\<close>: the run \<open>r\<close> ended in an error of the kind \<open>P\<close>.\<close>

fun fails_with :: "(error \<Rightarrow> bool) \<Rightarrow> (error + string) option \<Rightarrow> bool" where
  "fails_with P (Some (Inl e)) = P e"
| "fails_with P (Some (Inr out)) = False"
| "fails_with P None = False"

section \<open>The accepted grammar and the output the specification gives\<close>

text \<open>
  The specification's grammar of the input (its section 6) is
  \<^verbatim>\<open>program := expr*\<close>, \<^verbatim>\<open>expr := number | string | call\<close>,
  \<^verbatim>\<open>call := "(" name expr* ")"\<close>, with \<^verbatim>\<open>number := digit+\<close>,
  \<^verbatim>\<open>name := letter+\<close> and a string between two quotes of the same kind. An
  \<open>expr\<close> is an expression of this grammar together with the whitespace that follows
  each of its tokens in the text:
  \<^item> \<open>Num ds w\<close>: the digits \<open>ds\<close>, then the whitespace \<open>w\<close>;
  \<^item> \<open>Str q cs w\<close>: the quote \<open>q\<close>, the characters \<open>cs\<close>, the quote \<open>q\<close>, then \<open>w\<close>;
  \<^item> \<open>Call w1 f w2 args w3\<close>: \<^verbatim>\<open>(\<close>, \<open>w1\<close>, the name \<open>f\<close>, \<open>w2\<close>, the arguments,
    \<^verbatim>\<open>)\<close>, \<open>w3\<close>.
  \<open>source_text\<close> is the text of an expression, and \<open>program_text w0 es\<close> the text of the
  program \<open>es\<close> after the leading whitespace \<open>w0\<close>.
\<close>

datatype expr =
    Num string string
  | Str char string string
  | Call string string string "expr list" string

fun source_text :: "expr \<Rightarrow> string" where
  "source_text (Num ds w) = ds @ w"
| "source_text (Str q cs w) = [q] @ cs @ [q] @ w"
| "source_text (Call w1 f w2 args w3) = ''('' @ w1 @ f @ w2 @ concat (map source_text args) @ '')'' @ w3"

definition program_text :: "string \<Rightarrow> expr list \<Rightarrow> string" where
  "program_text w0 es = w0 @ concat (map source_text es)"

text \<open>
  An expression is well formed when its digits are digits, its name is letters, a string
  does not hold its own quote, and the whitespace is whitespace. Two numbers in a row
  are two numbers only with whitespace between them: \<open>separated\<close> asks for it
  (\<open>bare e\<close>: the text of \<open>e\<close> ends with the last digit of a number).
\<close>

fun is_Num :: "expr \<Rightarrow> bool" where
  "is_Num (Num ds w) = True"
| "is_Num (Str q cs w) = False"
| "is_Num (Call w1 f w2 args w3) = False"

fun bare :: "expr \<Rightarrow> bool" where
  "bare (Num ds w) = (w = [])"
| "bare (Str q cs w) = False"
| "bare (Call w1 f w2 args w3) = False"

fun separated :: "expr list \<Rightarrow> bool" where
  "separated [] = True"
| "separated [e] = True"
| "separated (e # e' # es) = (\<not> (bare e \<and> is_Num e') \<and> separated (e' # es))"

fun well_formed :: "expr \<Rightarrow> bool" where
  "well_formed (Num ds w) = (ds \<noteq> [] \<and> list_all is_digit ds \<and> list_all is_space w)"
| "well_formed (Str q cs w) = ((q = CHR 0x22 \<or> q = CHR 0x27) \<and> q \<notin> set cs \<and> list_all is_space w)"
| "well_formed (Call w1 f w2 args w3) =
     (list_all is_space w1 \<and> f \<noteq> [] \<and> list_all is_letter f \<and> list_all is_space w2 \<and>
      list_all well_formed args \<and> separated args \<and> list_all is_space w3)"

definition well_formed_program :: "string \<Rightarrow> expr list \<Rightarrow> bool" where
  "well_formed_program w0 es = (list_all is_space w0 \<and> list_all well_formed es \<and> separated es)"

text \<open>
  What each stage is to give for an expression: its tokens, its node in the parser's
  tree, and its node in the new tree (\<open>statement\<close> for an expression of the program's
  body, \<open>pushed_under parent\<close> for a child of any node \<open>parent\<close>).
\<close>

fun toks :: "expr \<Rightarrow> Token list" where
  "toks (Num ds w) = [\<lparr>tk_type = ''number'', tk_value = ds\<rparr>]"
| "toks (Str q cs w) = [\<lparr>tk_type = ''string'', tk_value = cs\<rparr>]"
| "toks (Call w1 f w2 args w3) =
     [\<lparr>tk_type = ''parenthesis'', tk_value = ''(''\<rparr>, \<lparr>tk_type = ''name'', tk_value = f\<rparr>] @
     concat (map toks args) @ [\<lparr>tk_type = ''parenthesis'', tk_value = '')''\<rparr>]"

fun ast :: "expr \<Rightarrow> ASTNode" where
  "ast (Num ds w) = NumberLiteral ds"
| "ast (Str q cs w) = stringLiteral cs"
| "ast (Call w1 f w2 args w3) = CallExpression f (map ast args)"

fun is_Call :: "expr \<Rightarrow> bool" where
  "is_Call (Num ds w) = False"
| "is_Call (Str q cs w) = False"
| "is_Call (Call w1 f w2 args w3) = True"

fun has_string :: "expr \<Rightarrow> bool" where
  "has_string (Num ds w) = False"
| "has_string (Str q cs w) = True"
| "has_string (Call w1 f w2 args w3) = list_ex has_string args"

fun new_node :: "expr \<Rightarrow> transFormedASTNode" where
  "new_node (Num ds w) = TNumberLiteral ds"
| "new_node (Str q cs w) = TStringLiteral cs"
| "new_node (Call w1 f w2 args w3) = TCallExpression (TIdentifier f) (map new_node args)"

definition pushed_under :: "ASTNode \<Rightarrow> expr \<Rightarrow> transFormedASTNode" where
  "pushed_under parent e =
     (if is_Call e \<and> node_type parent \<noteq> ''CallExpression''
      then TExpressionStatement (new_node e) else new_node e)"

definition statement :: "expr \<Rightarrow> transFormedASTNode" where
  "statement e = (if is_Call e then TExpressionStatement (new_node e) else new_node e)"

text \<open>\<open>has_statement n\<close>: an \<^verbatim>\<open>ExpressionStatement\<close> occurs in the new node \<open>n\<close>.\<close>

fun has_statement :: "transFormedASTNode \<Rightarrow> bool" where
  "has_statement (TProgram body) = list_ex has_statement body"
| "has_statement (TExpressionStatement expression) = True"
| "has_statement (TCallExpression callee arguments) =
     (has_statement callee \<or> list_ex has_statement arguments)"
| "has_statement (TIdentifier name) = False"
| "has_statement (TNumberLiteral v) = False"
| "has_statement (TStringLiteral v) = False"

text \<open>
  The output the specification gives (its sections 4.4 and 6): a number is written with
  its digits as they are, a string between double quotes, a call as
  \<^verbatim>\<open>name(arguments)\<close> with \<^verbatim>\<open>, \<close> between the arguments; a call of the program's body
  ends with a semicolon, and the statements are joined by newlines. \<open>split_lines\<close> cuts a
  text at its newline characters.
\<close>

fun emit :: "expr \<Rightarrow> string" where
  "emit (Num ds w) = ds"
| "emit (Str q cs w) = [CHR 0x22] @ cs @ [CHR 0x22]"
| "emit (Call w1 f w2 args w3) = f @ ''('' @ join (map emit args) '', '' @ '')''"

definition emit_statement :: "expr \<Rightarrow> string" where
  "emit_statement e = (if is_Call e then emit e @ '';'' else emit e)"

definition emit_program :: "expr list \<Rightarrow> string" where
  "emit_program es = join (map emit_statement es) [CHR 0x0A]"

fun split_lines :: "string \<Rightarrow> string list" where
  "split_lines [] = [[]]"
| "split_lines (c # cs) =
     (if c = CHR 0x0A then [] # split_lines cs
      else (case split_lines cs of [] \<Rightarrow> [[c]] | l # ls \<Rightarrow> (c # l) # ls))"

text \<open>
  \<open>reads s rest ts\<close>: wherever the text \<open>s\<close> stands in the input, followed by \<open>rest\<close>, the
  main loop of the tokenizer moves over \<open>s\<close> and appends the tokens \<open>ts\<close>.
\<close>

fun starts_digit :: "string \<Rightarrow> bool" where
  "starts_digit [] = False"
| "starts_digit (c # cs) = is_digit c"

definition reads :: "string \<Rightarrow> string \<Rightarrow> Token list \<Rightarrow> bool" where
  "reads s rest ts =
     (\<forall>input cur acc. drop cur input = s @ rest \<longrightarrow>
        tokenizer_loop input cur acc = tokenizer_loop input (cur + length s) (acc @ ts))"

section \<open>Properties of the stages\<close>

subsection \<open>Loops of the tokenizer that run to the end of the input\<close>

text \<open>
  The letter loop stops only at a character that is not a letter: past the end of the
  input the character is \<^verbatim>\<open>undefined\<close>, whose text \<^verbatim>\<open>"undefined"\<close> the class
  \<^verbatim>\<open>/[A-Za-z]/\<close> matches.
\<close>

lemma scan_name_stops:
  assumes "scan_name input cur val = Some r"
  shows "\<exists>i\<ge>cur. i < length input \<and> \<not> is_letter (input ! i)"
proof (rule scan_name.raw_induct
    [where P = "\<lambda>input cur val r. \<exists>i\<ge>cur. i < length input \<and> \<not> is_letter (input ! i)",
     OF _ assms])
  fix f input cur val r
  assume IH: "\<And>input cur val r. f input cur val = Some r \<Longrightarrow>
                \<exists>i\<ge>cur. i < length input \<and> \<not> is_letter (input ! i)"
    and step: "(if LETTERS (to_String (char_at input cur))
                then f input (cur + 1) (val @ to_String (char_at input cur))
                else Some (cur, val)) = Some r"
  show "\<exists>i\<ge>cur. i < length input \<and> \<not> is_letter (input ! i)"
  proof (cases "LETTERS (to_String (char_at input cur))")
    case True
    with step have "f input (cur + 1) (val @ to_String (char_at input cur)) = Some r"
      by simp
    from IH [OF this] obtain i
      where "cur + 1 \<le> i" "i < length input" "\<not> is_letter (input ! i)"
      by blast
    then show ?thesis by (intro exI [of _ i]) simp
  next
    case False
    then have "cur < length input" "\<not> is_letter (input ! cur)"
      by (auto simp: LETTERS_def to_String_def char_at_def is_letter_def split: if_splits)
    then show ?thesis by blast
  qed
qed

lemma scan_name_diverges:
  "\<forall>i\<ge>cur. i < length input \<longrightarrow> is_letter (input ! i) \<Longrightarrow> scan_name input cur val = None"
  using scan_name_stops [of input cur val] by (cases "scan_name input cur val") auto

lemma tokenizer_loop_spaces:
  "\<forall>i\<ge>cur. i < length input \<longrightarrow> is_space (input ! i) \<Longrightarrow>
     tokenizer_loop input cur tokens = Some (Inr tokens)"
proof (induction "length input - cur" arbitrary: cur)
  case 0
  then show ?case by (simp add: tokenizer_loop.simps [of input cur])
next
  case (Suc n)
  then have lt: "cur < length input" and sp: "is_space (input ! cur)"
    by auto
  from sp have np: "input ! cur \<noteq> CHR ''(''" "input ! cur \<noteq> CHR '')''"
    by (auto simp: is_space_def)
  from Suc have "tokenizer_loop input (cur + 1) tokens = Some (Inr tokens)"
    by (intro Suc.hyps(1)) auto
  with lt sp np show ?case
    by (simp add: tokenizer_loop.simps [of input cur] Let_def WHITESPACE_def)
qed

subsection \<open>The tokenizer on the text of a well-formed program\<close>

text \<open>
  A position \<open>cur\<close> of the input is described by what the input holds from there on,
  \<open>drop cur input\<close>. First the three inner loops on a run of digits, of letters and of
  the characters of a string, then the main loop on each kind of token.
\<close>

lemma drop_eq_ConsD: "drop cur input = c # rest \<Longrightarrow> cur < length input \<and> input ! cur = c"
  by (metis drop_all list.distinct(1) not_le nth_via_drop)

lemma drop_eq_appendD: "drop cur input = s @ rest \<Longrightarrow> drop (cur + length s) input = rest"
  by (metis add.commute append_eq_conv_conj drop_drop)

lemma char_at_drop_Cons: "drop cur input = c # rest \<Longrightarrow> char_at input cur = Some c"
  by (auto simp: char_at_def dest: drop_eq_ConsD)

lemma char_at_drop_Nil: "drop cur input = [] \<Longrightarrow> char_at input cur = None"
  by (auto simp: char_at_def)

lemma drop_Suc_of_Cons: "drop cur input = c # rest \<Longrightarrow> drop (Suc cur) input = rest"
  using drop_eq_appendD [of cur input "[c]" rest] by simp

lemma scan_number_run:
  "drop cur input = ds @ rest \<Longrightarrow> list_all is_digit ds \<Longrightarrow> \<not> starts_digit rest \<Longrightarrow>
     scan_number input cur val = (cur + length ds, val @ ds)"
proof (induction ds arbitrary: cur val)
  case Nil
  then have "\<not> NUMBERS (to_String (char_at input cur))"
    by (cases rest)
       (auto simp: NUMBERS_def to_String_def is_digit_def char_at_drop_Nil char_at_drop_Cons)
  then show ?case by (simp add: scan_number.simps [of input cur])
next
  case (Cons d ds)
  from Cons.prems have c: "char_at input cur = Some d"
    by (simp add: char_at_drop_Cons)
  from Cons.prems have "drop (cur + 1) input = ds @ rest"
    by (simp add: drop_Suc_of_Cons)
  with Cons have "scan_number input (cur + 1) (val @ [d]) = (cur + 1 + length ds, (val @ [d]) @ ds)"
    by (intro Cons.IH) auto
  with c Cons.prems show ?case
    by (simp add: scan_number.simps [of input cur] NUMBERS_def to_String_def)
qed

lemma scan_name_run:
  "drop cur input = f @ c # rest \<Longrightarrow> list_all is_letter f \<Longrightarrow> \<not> is_letter c \<Longrightarrow>
     scan_name input cur val = Some (cur + length f, val @ f)"
proof (induction f arbitrary: cur val)
  case Nil
  then show ?case
    by (simp add: scan_name.simps [of input cur] LETTERS_def to_String_def char_at_drop_Cons)
next
  case (Cons d f)
  from Cons.prems have c: "char_at input cur = Some d"
    by (simp add: char_at_drop_Cons)
  from Cons.prems have "drop (cur + 1) input = f @ c # rest"
    by (simp add: drop_Suc_of_Cons)
  with Cons have "scan_name input (cur + 1) (val @ [d]) = Some (cur + 1 + length f, (val @ [d]) @ f)"
    by (intro Cons.IH) auto
  with c Cons.prems show ?case
    by (simp add: scan_name.simps [of input cur] LETTERS_def to_String_def)
qed

lemma scan_string_run:
  "drop cur input = cs @ q # rest \<Longrightarrow> q \<notin> set cs \<Longrightarrow>
     scan_string input q cur val = Some (cur + length cs, val @ cs)"
proof (induction cs arbitrary: cur val)
  case Nil
  then show ?case
    by (simp add: scan_string.simps [of input q cur] char_at_drop_Cons)
next
  case (Cons d cs)
  from Cons.prems have c: "char_at input cur = Some d"
    by (simp add: char_at_drop_Cons)
  from Cons.prems have "drop (cur + 1) input = cs @ q # rest"
    by (simp add: drop_Suc_of_Cons)
  with Cons have "scan_string input q (cur + 1) (val @ [d]) = Some (cur + 1 + length cs, (val @ [d]) @ cs)"
    by (intro Cons.IH) auto
  with c Cons.prems show ?case
    by (auto simp: scan_string.simps [of input q cur] to_String_def)
qed

lemma is_digit_other:
  "is_digit c \<Longrightarrow> c \<noteq> CHR ''('' \<and> c \<noteq> CHR '')'' \<and> \<not> is_space c"
  by (auto simp: is_digit_def is_space_def)

lemma is_letter_other:
  "is_letter c \<Longrightarrow> c \<noteq> CHR ''('' \<and> c \<noteq> CHR '')'' \<and> \<not> is_space c \<and> \<not> is_digit c \<and>
     c \<noteq> CHR 0x22 \<and> c \<noteq> CHR 0x27"
  by (auto simp: is_letter_def is_digit_def is_space_def)

lemma quote_other:
  "c = CHR 0x22 \<or> c = CHR 0x27 \<Longrightarrow>
     c \<noteq> CHR ''('' \<and> c \<noteq> CHR '')'' \<and> \<not> is_space c \<and> \<not> is_digit c \<and> \<not> is_letter c"
  by (auto simp: is_letter_def is_digit_def is_space_def)

lemma lex_end: "drop cur input = [] \<Longrightarrow> tokenizer_loop input cur acc = Some (Inr acc)"
  by (simp add: tokenizer_loop.simps [of input cur])

lemma lex_paren:
  assumes "drop cur input = c # rest" and "c = CHR ''('' \<or> c = CHR '')''"
  shows "tokenizer_loop input cur acc =
         tokenizer_loop input (cur + 1) (acc @ [\<lparr>tk_type = ''parenthesis'', tk_value = [c]\<rparr>])"
  using drop_eq_ConsD [OF assms(1)] assms(2)
  by (simp add: tokenizer_loop.simps [of input cur] Let_def)

lemma lex_spaces:
  "drop cur input = w @ rest \<Longrightarrow> list_all is_space w \<Longrightarrow>
     tokenizer_loop input cur acc = tokenizer_loop input (cur + length w) acc"
proof (induction w arbitrary: cur)
  case Nil
  then show ?case by simp
next
  case (Cons c w)
  from Cons.prems have here: "cur < length input" "input ! cur = c"
    using drop_eq_ConsD [of cur input c "w @ rest"] by auto
  from Cons.prems have sp: "is_space c" by simp
  then have np: "c \<noteq> CHR ''(''" "c \<noteq> CHR '')''"
    by (auto simp: is_space_def)
  from Cons.prems have "drop (Suc cur) input = w @ rest"
    by (simp add: drop_Suc_of_Cons)
  with Cons have "tokenizer_loop input (Suc cur) acc = tokenizer_loop input (Suc cur + length w) acc"
    by (intro Cons.IH) auto
  with here sp np show ?case
    by (simp add: tokenizer_loop.simps [of input cur] Let_def WHITESPACE_def)
qed

lemma lex_number:
  assumes "drop cur input = ds @ rest" and "ds \<noteq> []" and "list_all is_digit ds"
    and "\<not> starts_digit rest"
  shows "tokenizer_loop input cur acc =
         tokenizer_loop input (cur + length ds) (acc @ [\<lparr>tk_type = ''number'', tk_value = ds\<rparr>])"
proof -
  from assms(2) obtain d ds' where ds: "ds = d # ds'" by (cases ds) auto
  with assms have here: "cur < length input" "input ! cur = d" and d: "is_digit d"
    using drop_eq_ConsD [of cur input d "ds' @ rest"] by auto
  from scan_number_run [OF assms(1,3,4)]
  have "scan_number input cur [] = (cur + length ds, ds)" by simp
  with here d is_digit_other [OF d] show ?thesis
    by (simp add: tokenizer_loop.simps [of input cur] Let_def WHITESPACE_def NUMBERS_def)
qed

lemma lex_string:
  assumes "drop cur input = q # cs @ q # rest" and "q = CHR 0x22 \<or> q = CHR 0x27"
    and "q \<notin> set cs"
  shows "tokenizer_loop input cur acc =
         tokenizer_loop input (cur + length cs + 2) (acc @ [\<lparr>tk_type = ''string'', tk_value = cs\<rparr>])"
proof -
  from assms have here: "cur < length input" "input ! cur = q"
    using drop_eq_ConsD [of cur input q "cs @ q # rest"] by auto
  from assms(1) have "drop (cur + 1) input = cs @ q # rest"
    by (simp add: drop_Suc_of_Cons)
  from scan_string_run [OF this assms(3)]
  have "scan_string input q (cur + 1) [] = Some (cur + 1 + length cs, cs)" by simp
  with here quote_other [OF assms(2)] assms(2) show ?thesis
    by (simp add: tokenizer_loop.simps [of input cur] Let_def WHITESPACE_def NUMBERS_def)
qed

lemma lex_name:
  assumes "drop cur input = f @ c # rest" and "f \<noteq> []" and "list_all is_letter f"
    and "\<not> is_letter c"
  shows "tokenizer_loop input cur acc =
         tokenizer_loop input (cur + length f) (acc @ [\<lparr>tk_type = ''name'', tk_value = f\<rparr>])"
proof -
  from assms(2) obtain d f' where f: "f = d # f'" by (cases f) auto
  with assms have here: "cur < length input" "input ! cur = d" and d: "is_letter d"
    using drop_eq_ConsD [of cur input d "f' @ c # rest"] by auto
  from scan_name_run [OF assms(1,3,4)]
  have "scan_name input cur [] = Some (cur + length f, f)" by simp
  with here d is_letter_other [OF d] show ?thesis
    by (simp add: tokenizer_loop.simps [of input cur] Let_def WHITESPACE_def NUMBERS_def LETTERS_def)
qed

text \<open>A run of letters that ends the input: the main loop does not return.\<close>

lemma tokenizer_loop_trailing_name:
  assumes "drop cur input = f" and "f \<noteq> []" and "list_all is_letter f"
  shows "tokenizer_loop input cur acc = None"
proof -
  from assms(2) obtain d f' where f: "f = d # f'" by (cases f) auto
  with assms have here: "cur < length input" "input ! cur = d" and d: "is_letter d"
    using drop_eq_ConsD [of cur input d f'] by auto
  have "\<forall>i\<ge>cur. i < length input \<longrightarrow> is_letter (input ! i)"
  proof (intro allI impI)
    fix i assume i: "cur \<le> i" "i < length input"
    then have "input ! i = drop cur input ! (i - cur)" by simp
    moreover from i assms(1) have "i - cur < length f" by auto
    ultimately show "is_letter (input ! i)"
      using assms(1,3) by (simp add: list_all_length)
  qed
  then have "scan_name input cur [] = None"
    by (rule scan_name_diverges)
  with here d is_letter_other [OF d] show ?thesis
    by (simp add: tokenizer_loop.simps [of input cur] Let_def WHITESPACE_def NUMBERS_def LETTERS_def)
qed

text \<open>The same facts as \<open>reads\<close>, which compose along the text.\<close>

lemma reads_Nil: "reads [] rest []"
  by (simp add: reads_def)

lemma reads_append:
  assumes "reads s1 (s2 @ rest) ts1" and "reads s2 rest ts2"
  shows "reads (s1 @ s2) rest (ts1 @ ts2)"
  unfolding reads_def
proof (intro allI impI)
  fix input cur acc
  assume d: "drop cur input = (s1 @ s2) @ rest"
  then have d1: "drop cur input = s1 @ (s2 @ rest)" by simp
  then have d2: "drop (cur + length s1) input = s2 @ rest"
    by (rule drop_eq_appendD)
  from assms(1) d1 have "tokenizer_loop input cur acc =
      tokenizer_loop input (cur + length s1) (acc @ ts1)"
    by (simp add: reads_def)
  also from assms(2) d2 have "\<dots> = tokenizer_loop input (cur + length s1 + length s2) ((acc @ ts1) @ ts2)"
    by (simp add: reads_def)
  finally show "tokenizer_loop input cur acc =
      tokenizer_loop input (cur + length (s1 @ s2)) (acc @ ts1 @ ts2)"
    by (simp add: add.assoc)
qed

lemma reads_paren:
  "c = CHR ''('' \<or> c = CHR '')'' \<Longrightarrow>
     reads [c] rest [\<lparr>tk_type = ''parenthesis'', tk_value = [c]\<rparr>]"
  unfolding reads_def using lex_paren by simp

lemma reads_spaces: "list_all is_space w \<Longrightarrow> reads w rest []"
  unfolding reads_def using lex_spaces by simp

lemma reads_number:
  "ds \<noteq> [] \<Longrightarrow> list_all is_digit ds \<Longrightarrow> \<not> starts_digit rest \<Longrightarrow>
     reads ds rest [\<lparr>tk_type = ''number'', tk_value = ds\<rparr>]"
  unfolding reads_def using lex_number by simp

lemma reads_string:
  assumes "q = CHR 0x22 \<or> q = CHR 0x27" and "q \<notin> set cs"
  shows "reads ([q] @ cs @ [q]) rest [\<lparr>tk_type = ''string'', tk_value = cs\<rparr>]"
  unfolding reads_def
proof (intro allI impI)
  fix input cur acc
  assume "drop cur input = ([q] @ cs @ [q]) @ rest"
  then have "drop cur input = q # cs @ q # rest" by simp
  from lex_string [OF this assms]
  show "tokenizer_loop input cur acc =
        tokenizer_loop input (cur + length ([q] @ cs @ [q]))
          (acc @ [\<lparr>tk_type = ''string'', tk_value = cs\<rparr>])"
    by simp
qed

lemma reads_name:
  "f \<noteq> [] \<Longrightarrow> list_all is_letter f \<Longrightarrow> \<not> is_letter c \<Longrightarrow>
     reads f (c # rest) [\<lparr>tk_type = ''name'', tk_value = f\<rparr>]"
  unfolding reads_def using lex_name by simp

lemma starts_digit_spaces: "list_all is_space w \<Longrightarrow> w \<noteq> [] \<Longrightarrow> \<not> starts_digit (w @ rest)"
  by (cases w) (auto simp: is_space_def is_digit_def)

lemma source_text_first:
  "well_formed e \<Longrightarrow> \<exists>c s. source_text e = c # s \<and> \<not> is_letter c \<and> (is_digit c \<longleftrightarrow> is_Num e)"
proof (cases e)
  case (Num ds w)
  assume "well_formed e"
  with Num show ?thesis
    by (cases ds) (auto dest: is_letter_other)
next
  case (Str q cs w)
  assume "well_formed e"
  with Str show ?thesis
    by (auto simp: is_letter_def is_digit_def)
next
  case (Call w1 f w2 args w3)
  then show ?thesis
    by (auto simp: is_letter_def is_digit_def)
qed

lemma starts_digit_source_text: "well_formed e \<Longrightarrow> starts_digit (source_text e @ rest) = is_Num e"
  using source_text_first [of e] by auto

lemma args_first_not_letter:
  assumes "list_all well_formed es"
  shows "\<exists>c s. concat (map source_text es) @ '')'' @ rest = c # s \<and> \<not> is_letter c"
proof (cases es)
  case Nil
  then show ?thesis by (simp add: is_letter_def)
next
  case (Cons e es')
  with assms have "well_formed e" by simp
  from source_text_first [OF this] Cons show ?thesis by auto
qed

lemma reads_list:
  assumes each: "\<And>e rest. e \<in> set es \<Longrightarrow> well_formed e \<Longrightarrow> (bare e \<longrightarrow> \<not> starts_digit rest) \<Longrightarrow>
                   reads (source_text e) rest (toks e)"
    and "list_all well_formed es" and "separated es" and "\<not> starts_digit rest"
  shows "reads (concat (map source_text es)) rest (concat (map toks es))"
  using assms
proof (induction es)
  case Nil
  then show ?case by (simp add: reads_Nil)
next
  case (Cons e es)
  have sep: "bare e \<longrightarrow> \<not> starts_digit (concat (map source_text es) @ rest)"
  proof (cases es)
    case Nil
    with Cons.prems show ?thesis by simp
  next
    case (Cons e' es')
    with Cons.prems have "well_formed e'" "\<not> (bare e \<and> is_Num e')" by auto
    with Cons show ?thesis
      by (simp add: starts_digit_source_text)
  qed
  from Cons.prems sep have 1: "reads (source_text e) (concat (map source_text es) @ rest) (toks e)"
    by (intro Cons.prems(1)) auto
  have "separated es"
    using Cons.prems(3) by (cases es) auto
  with Cons.prems have 2: "reads (concat (map source_text es)) rest (concat (map toks es))"
    by (intro Cons.IH) auto
  from reads_append [OF 1 2] show ?case by simp
qed

lemma reads_expr:
  "well_formed e \<Longrightarrow> (bare e \<longrightarrow> \<not> starts_digit rest) \<Longrightarrow> reads (source_text e) rest (toks e)"
proof (induction e arbitrary: rest)
  case (Num ds w)
  then have "\<not> starts_digit (w @ rest)"
    by (cases "w = []") (auto simp: starts_digit_spaces)
  with Num have 1: "reads ds (w @ rest) [\<lparr>tk_type = ''number'', tk_value = ds\<rparr>]"
    by (intro reads_number) auto
  from Num have 2: "reads w rest []"
    by (intro reads_spaces) auto
  from reads_append [OF 1 2] show ?case by simp
next
  case (Str q cs w)
  then have 1: "reads ([q] @ cs @ [q]) (w @ rest) [\<lparr>tk_type = ''string'', tk_value = cs\<rparr>]"
    by (intro reads_string) auto
  from Str have 2: "reads w rest []"
    by (intro reads_spaces) auto
  from reads_append [OF 1 2] show ?case by simp
next
  case (Call w1 f w2 args w3)
  let ?A = "concat (map source_text args)"
  from Call.prems have w: "list_all is_space w1" "list_all is_space w2" "list_all is_space w3"
    and f: "f \<noteq> []" "list_all is_letter f"
    and args: "list_all well_formed args" "separated args"
    by auto
  have r7: "reads w3 rest []"
    using w by (intro reads_spaces)
  have r6: "reads '')'' (w3 @ rest) [\<lparr>tk_type = ''parenthesis'', tk_value = '')''\<rparr>]"
    by (intro reads_paren) simp
  have r67: "reads ('')'' @ w3) rest [\<lparr>tk_type = ''parenthesis'', tk_value = '')''\<rparr>]"
    using reads_append [OF r6 r7] by simp
  have r5: "reads ?A (('')'' @ w3) @ rest) (concat (map toks args))"
  proof (rule reads_list)
    fix e rest'
    assume "e \<in> set args" "well_formed e" "bare e \<longrightarrow> \<not> starts_digit rest'"
    then show "reads (source_text e) rest' (toks e)"
      by (intro Call.IH)
  qed (use args in \<open>auto simp: is_digit_def\<close>)
  have r57: "reads (?A @ '')'' @ w3) rest
               (concat (map toks args) @ [\<lparr>tk_type = ''parenthesis'', tk_value = '')''\<rparr>])"
    using reads_append [OF r5 r67] by simp
  have r4: "reads w2 ((?A @ '')'' @ w3) @ rest) []"
    using w by (intro reads_spaces)
  have r47: "reads (w2 @ ?A @ '')'' @ w3) rest
               (concat (map toks args) @ [\<lparr>tk_type = ''parenthesis'', tk_value = '')''\<rparr>])"
    using reads_append [OF r4 r57] by simp
  obtain c s where next_char: "(w2 @ ?A @ '')'' @ w3) @ rest = c # s" "\<not> is_letter c"
  proof (cases w2)
    case Nil
    from args_first_not_letter [OF args(1), of "w3 @ rest"] obtain c s
      where "?A @ '')'' @ w3 @ rest = c # s" "\<not> is_letter c" by auto
    with Nil that show ?thesis by simp
  next
    case (Cons c w2')
    with w have "\<not> is_letter c" by (auto simp: is_space_def is_letter_def)
    with Cons that show ?thesis by simp
  qed
  have r3: "reads f ((w2 @ ?A @ '')'' @ w3) @ rest) [\<lparr>tk_type = ''name'', tk_value = f\<rparr>]"
    unfolding next_char(1) using f next_char(2) by (intro reads_name)
  have r37: "reads (f @ w2 @ ?A @ '')'' @ w3) rest
               ([\<lparr>tk_type = ''name'', tk_value = f\<rparr>] @ concat (map toks args) @
                [\<lparr>tk_type = ''parenthesis'', tk_value = '')''\<rparr>])"
    using reads_append [OF r3 r47] by simp
  have r2: "reads w1 ((f @ w2 @ ?A @ '')'' @ w3) @ rest) []"
    using w by (intro reads_spaces)
  have r27: "reads (w1 @ f @ w2 @ ?A @ '')'' @ w3) rest
               ([\<lparr>tk_type = ''name'', tk_value = f\<rparr>] @ concat (map toks args) @
                [\<lparr>tk_type = ''parenthesis'', tk_value = '')''\<rparr>])"
    using reads_append [OF r2 r37] by simp
  have r1: "reads ''('' ((w1 @ f @ w2 @ ?A @ '')'' @ w3) @ rest)
              [\<lparr>tk_type = ''parenthesis'', tk_value = ''(''\<rparr>]"
    by (intro reads_paren) simp
  from reads_append [OF r1 r27] show ?case by simp
qed

lemma tokenizer_program:
  assumes "well_formed_program w0 es"
  shows "tokenizer (program_text w0 es) = Some (Inr (concat (map toks es)))"
proof -
  let ?A = "concat (map source_text es)"
  from assms have r1: "reads w0 (?A @ []) []"
    by (intro reads_spaces) (simp add: well_formed_program_def)
  from assms have r2: "reads ?A [] (concat (map toks es))"
    by (intro reads_list reads_expr) (auto simp: well_formed_program_def)
  from reads_append [OF r1 r2]
  have "reads (program_text w0 es) [] (concat (map toks es))"
    by (simp add: program_text_def)
  then have "drop 0 (program_text w0 es) = program_text w0 es @ [] \<longrightarrow>
      tokenizer_loop (program_text w0 es) 0 [] =
      tokenizer_loop (program_text w0 es) (0 + length (program_text w0 es))
        ([] @ concat (map toks es))"
    unfolding reads_def by blast
  then show ?thesis
    by (simp add: tokenizer_def lex_end)
qed

subsection \<open>The parser on the tokens of a program\<close>

lemma token_at_drop_Cons: "drop cur tokens = t # rest \<Longrightarrow> token_at tokens cur = Some t"
  by (metis drop_all list.distinct(1) not_le nth_via_drop token_at_def)

lemma drop_tokens_append:
  "drop cur tokens = ts @ rest \<Longrightarrow> drop (cur + length ts) tokens = rest"
  by (metis add.commute append_eq_conv_conj drop_drop)

lemma toks_first:
  "\<exists>t ts. toks e = t # ts \<and>
     (tk_type t \<noteq> ''parenthesis'' \<or> (tk_type t = ''parenthesis'' \<and> tk_value t \<noteq> '')''))"
  by (cases e) auto

lemma walk_params_list:
  assumes each: "\<And>e cur rest. e \<in> set es \<Longrightarrow> drop cur tokens = toks e @ rest \<Longrightarrow>
                   walk tokens cur = Inr (ast e, cur + length (toks e))"
    and "drop cur tokens = concat (map toks es) @ \<lparr>tk_type = ''parenthesis'', tk_value = '')''\<rparr> # rest"
  shows "walk_params tokens cur params =
           Inr (params @ map ast es, cur + length (concat (map toks es)))"
  using assms
proof (induction es arbitrary: cur params)
  case Nil
  then have "token_at tokens cur = Some \<lparr>tk_type = ''parenthesis'', tk_value = '')''\<rparr>"
    by (simp add: token_at_drop_Cons)
  then show ?case
    by (simp add: walk_params.simps [of tokens cur])
next
  case (Cons e es)
  let ?rest = "concat (map toks es) @ \<lparr>tk_type = ''parenthesis'', tk_value = '')''\<rparr> # rest"
  from Cons.prems(2) have d: "drop cur tokens = toks e @ ?rest" by simp
  obtain t ts where t: "toks e = t # ts"
    "tk_type t \<noteq> ''parenthesis'' \<or> (tk_type t = ''parenthesis'' \<and> tk_value t \<noteq> '')'')"
    using toks_first [of e] by blast
  with d have at: "token_at tokens cur = Some t"
    by (simp add: token_at_drop_Cons)
  from d have w: "walk tokens cur = Inr (ast e, cur + length (toks e))"
    by (intro Cons.prems(1)) auto
  from d have "drop (cur + length (toks e)) tokens = ?rest"
    by (rule drop_tokens_append)
  with Cons.prems(1) have "walk_params tokens (cur + length (toks e)) (params @ [ast e]) =
      Inr ((params @ [ast e]) @ map ast es, cur + length (toks e) + length (concat (map toks es)))"
    by (intro Cons.IH) auto
  with at t(2) w show ?case
    by (simp add: walk_params.simps [of tokens cur params] add.assoc)
qed

lemma walk_expr:
  "drop cur tokens = toks e @ rest \<Longrightarrow> walk tokens cur = Inr (ast e, cur + length (toks e))"
proof (induction e arbitrary: cur rest)
  case (Num ds w)
  then have "token_at tokens cur = Some \<lparr>tk_type = ''number'', tk_value = ds\<rparr>"
    by (simp add: token_at_drop_Cons)
  then show ?case by (simp add: walk.simps [of tokens cur])
next
  case (Str q cs w)
  then have "token_at tokens cur = Some \<lparr>tk_type = ''string'', tk_value = cs\<rparr>"
    by (simp add: token_at_drop_Cons)
  then show ?case by (simp add: walk.simps [of tokens cur])
next
  case (Call w1 f w2 args w3)
  let ?rp = "\<lparr>tk_type = ''parenthesis'', tk_value = '')''\<rparr>"
  let ?A = "concat (map toks args)"
  from Call.prems have d0: "drop cur tokens =
      \<lparr>tk_type = ''parenthesis'', tk_value = ''(''\<rparr> # \<lparr>tk_type = ''name'', tk_value = f\<rparr> #
        ?A @ ?rp # rest"
    by simp
  then have at0: "token_at tokens cur = Some \<lparr>tk_type = ''parenthesis'', tk_value = ''(''\<rparr>"
    by (rule token_at_drop_Cons)
  from d0 have d1: "drop (cur + 1) tokens = \<lparr>tk_type = ''name'', tk_value = f\<rparr> # ?A @ ?rp # rest"
    using drop_tokens_append [of cur tokens "[\<lparr>tk_type = ''parenthesis'', tk_value = ''(''\<rparr>]"]
    by simp
  then have at1: "token_at tokens (cur + 1) = Some \<lparr>tk_type = ''name'', tk_value = f\<rparr>"
    by (rule token_at_drop_Cons)
  from d1 have d2: "drop (cur + 2) tokens = ?A @ ?rp # rest"
    using drop_tokens_append [of "cur + 1" tokens "[\<lparr>tk_type = ''name'', tk_value = f\<rparr>]"]
    by (simp add: numeral_2_eq_2)
  have "walk_params tokens (cur + 2) [] = Inr ([] @ map ast args, cur + 2 + length ?A)"
  proof (rule walk_params_list [OF _ d2])
    fix e cur' rest'
    assume "e \<in> set args" "drop cur' tokens = toks e @ rest'"
    then show "walk tokens cur' = Inr (ast e, cur' + length (toks e))"
      by (rule Call.IH)
  qed
  with at0 at1 show ?case
    by (simp add: walk.simps [of tokens cur])
qed

lemma parser_loop_list:
  "drop cur tokens = concat (map toks es) \<Longrightarrow>
     parser_loop tokens cur body = Inr (body @ map ast es)"
proof (induction es arbitrary: cur body)
  case Nil
  then show ?case by (simp add: parser_loop.simps [of tokens cur])
next
  case (Cons e es)
  from Cons.prems have d: "drop cur tokens = toks e @ concat (map toks es)" by simp
  obtain t ts where "toks e = t # ts" using toks_first [of e] by blast
  with d have lt: "cur < length tokens"
    by (cases "cur < length tokens") auto
  from d have w: "walk tokens cur = Inr (ast e, cur + length (toks e))"
    by (rule walk_expr)
  from d have "drop (cur + length (toks e)) tokens = concat (map toks es)"
    by (rule drop_tokens_append)
  then have "parser_loop tokens (cur + length (toks e)) (body @ [ast e]) =
      Inr ((body @ [ast e]) @ map ast es)"
    by (rule Cons.IH)
  with lt w show ?case
    by (simp add: parser_loop.simps [of tokens cur body])
qed

lemma parser_program: "parser (concat (map toks es)) = Inr (Program (map ast es))"
  using parser_loop_list [of 0 "concat (map toks es)" es "[]"]
  by (simp add: parser_def)

subsection \<open>The traversal of the parser's tree\<close>

text \<open>
  A tree with a string in it stops the traversal at the first string, with the throw of
  line 265; on a tree with no string each child is pushed onto its parent's context.
\<close>

lemma arrayTraversal_list:
  assumes each: "\<And>e ctx parent arr. e \<in> set es \<Longrightarrow>
      nodeTraversal (ast e) ctx (Some parent) (Some arr) =
        (if has_string e then Inl (TraversalThrow ''stringLiteral'')
         else Inr (if is_Call e then Some (map new_node (case e of Call w1 f w2 args w3 \<Rightarrow> args | _ \<Rightarrow> [])) else ctx,
                   Some (arr @ [pushed_under parent e])))"
  shows "arrayTraversal (map ast es) parent (Some arr) =
           (if list_ex has_string es then Inl (TraversalThrow ''stringLiteral'')
            else Inr (Some (arr @ map (pushed_under parent) es)))"
  using assms
proof (induction es arbitrary: arr)
  case Nil
  then show ?case by simp
next
  case (Cons e es)
  have IH: "arrayTraversal (map ast es) parent (Some arr') =
           (if list_ex has_string es then Inl (TraversalThrow ''stringLiteral'')
            else Inr (Some (arr' @ map (pushed_under parent) es)))" for arr'
    using Cons.prems by (intro Cons.IH) auto
  show ?case
    by (simp add: Cons.prems [of e None parent arr] IH)
qed

lemma nodeTraversal_expr:
  "nodeTraversal (ast e) ctx (Some parent) (Some arr) =
        (if has_string e then Inl (TraversalThrow ''stringLiteral'')
         else Inr (if is_Call e then Some (map new_node (case e of Call w1 f w2 args w3 \<Rightarrow> args | _ \<Rightarrow> [])) else ctx,
                   Some (arr @ [pushed_under parent e])))"
proof (induction e arbitrary: ctx parent arr)
  case (Num ds w)
  show ?case
    by (simp add: nodeTraversal.simps [of "NumberLiteral ds"] visitor_def pushed_under_def)
next
  case (Str q cs w)
  show ?case
    by (simp add: nodeTraversal.simps [of "stringLiteral cs"] visitor_def)
next
  case (Call w1 f w2 args w3)
  have "arrayTraversal (map ast args) (CallExpression f (map ast args)) (Some []) =
           (if list_ex has_string args then Inl (TraversalThrow ''stringLiteral'')
            else Inr (Some ([] @ map (pushed_under (CallExpression f (map ast args))) args)))"
    by (rule arrayTraversal_list) (rule Call.IH)
  moreover have "map (pushed_under (CallExpression f (map ast args))) args = map new_node args"
    by (simp add: pushed_under_def)
  ultimately show ?case
    by (simp add: nodeTraversal.simps [of "CallExpression f (map ast args)"] visitor_def
        pushed_under_def)
qed

lemma transform_program:
  "transform (Program (map ast es)) =
     (if list_ex has_string es then Inl (TraversalThrow ''stringLiteral'')
      else Inr (TProgram (map statement es)))"
proof -
  have "arrayTraversal (map ast es) (Program (map ast es)) (Some []) =
           (if list_ex has_string es then Inl (TraversalThrow ''stringLiteral'')
            else Inr (Some ([] @ map (pushed_under (Program (map ast es))) es)))"
    by (rule arrayTraversal_list) (rule nodeTraversal_expr)
  moreover have "map (pushed_under (Program (map ast es))) es = map statement es"
    by (simp add: pushed_under_def statement_def)
  ultimately show ?thesis
    by (simp add: transform_def nodeTraversal.simps [of "Program (map ast es)"] visitor_def)
qed

lemma new_node_no_statement: "\<not> has_statement (new_node e)"
  by (induction e) (auto simp: list_ex_iff)

subsection \<open>The generator, and the whole pipeline\<close>

lemma codeGenerator_new_node: "codeGenerator (new_node e) = emit e"
  by (induction e) (simp_all cong: map_cong)

lemma codeGenerator_statement: "codeGenerator (statement e) = emit_statement e"
  by (simp add: statement_def emit_statement_def codeGenerator_new_node)

lemma codeGenerator_program:
  "codeGenerator (TProgram (map statement es)) = emit_program es"
  by (simp add: emit_program_def codeGenerator_statement comp_def)

lemma compile_program:
  assumes "well_formed_program w0 es"
  shows "compile (program_text w0 es) =
           Some (if list_ex has_string es then Inl (TraversalThrow ''stringLiteral'')
                 else Inr (emit_program es))"
  using tokenizer_program [OF assms]
  by (simp add: compile_def parser_program transform_program codeGenerator_program
      del: codeGenerator.simps)

subsection \<open>The lines of the output\<close>

lemma split_lines_no_newline: "CHR 0x0A \<notin> set s \<Longrightarrow> split_lines s = [s]"
  by (induction s) auto

lemma split_lines_append:
  "CHR 0x0A \<notin> set s \<Longrightarrow> split_lines (s @ CHR 0x0A # t) = s # split_lines t"
  by (induction s) auto

lemma split_lines_join:
  "xs \<noteq> [] \<Longrightarrow> \<forall>x\<in>set xs. CHR 0x0A \<notin> set x \<Longrightarrow> split_lines (join xs [CHR 0x0A]) = xs"
proof (induction xs "[CHR 0x0A]" rule: join.induct)
  case 1
  then show ?case by simp
next
  case (2 x)
  then show ?case by (simp add: split_lines_no_newline)
next
  case (3 x y ys)
  then show ?case by (simp add: split_lines_append)
qed

lemma set_join: "set (join xs sep) \<subseteq> (\<Union>x\<in>set xs. set x) \<union> set sep"
  by (induction xs sep rule: join.induct) auto

lemma emit_no_newline:
  "well_formed e \<Longrightarrow> \<not> has_string e \<Longrightarrow> CHR 0x0A \<notin> set (emit e)"
proof (induction e)
  case (Num ds w)
  then show ?case
    by (auto simp: list_all_iff is_digit_def)
next
  case (Str q cs w)
  then show ?case by simp
next
  case (Call w1 f w2 args w3)
  then have "\<forall>a\<in>set args. CHR 0x0A \<notin> set (emit a)"
    by (auto simp: list_all_iff list_ex_iff)
  then have "CHR 0x0A \<notin> set (join (map emit args) '', '')"
    using set_join [of "map emit args" "'', ''"] by auto
  moreover from Call.prems have "CHR 0x0A \<notin> set f"
    by (auto simp: list_all_iff is_letter_def)
  ultimately show ?case by simp
qed

lemma emit_no_semicolon:
  "well_formed e \<Longrightarrow> \<not> has_string e \<Longrightarrow> CHR '';'' \<notin> set (emit e)"
proof (induction e)
  case (Num ds w)
  then show ?case
    by (auto simp: list_all_iff is_digit_def)
next
  case (Str q cs w)
  then show ?case by simp
next
  case (Call w1 f w2 args w3)
  then have "\<forall>a\<in>set args. CHR '';'' \<notin> set (emit a)"
    by (auto simp: list_all_iff list_ex_iff)
  then have "CHR '';'' \<notin> set (join (map emit args) '', '')"
    using set_join [of "map emit args" "'', ''"] by auto
  moreover from Call.prems have "CHR '';'' \<notin> set f"
    by (auto simp: list_all_iff is_letter_def)
  ultimately show ?case by simp
qed

lemma emit_statement_no_newline:
  "well_formed e \<Longrightarrow> \<not> has_string e \<Longrightarrow> CHR 0x0A \<notin> set (emit_statement e)"
  by (simp add: emit_statement_def emit_no_newline)

lemma emit_statement_not_empty: "well_formed e \<Longrightarrow> emit_statement e \<noteq> []"
  by (cases e) (auto simp: emit_statement_def)

lemma join_not_empty: "xs \<noteq> [] \<Longrightarrow> \<forall>x\<in>set xs. x \<noteq> [] \<Longrightarrow> join xs sep \<noteq> []"
  by (induction xs sep rule: join.induct) auto

section \<open>The claims\<close>

text \<open>
  C1. The specification gives \<^verbatim>\<open>concat("foo", "bar");\<close> as the output for the input
  \<^verbatim>\<open>(concat "foo" "bar")\<close>. The program does not return it: the parser gives a string
  node the type \<^verbatim>\<open>stringLiteral\<close> (line 130), the visitor and the traversal know
  \<^verbatim>\<open>StringLiteral\<close> (lines 199 and 262), and the traversal throws at the first string
  argument.
\<close>

theorem string_arguments_throw:
  \<open>compile ''(concat "foo" "bar")'' = Some (Inl (TraversalThrow ''stringLiteral''))\<close>
  by code_simp

text \<open>
  C2. The specification says that the traversal's throw cannot be reached from a tree the
  parser returns. It is reached: the parser returns the tree below for the one token of
  the input \<^verbatim>\<open>"foo"\<close>, and \<open>transform\<close> fails on it with the traversal's throw.
\<close>

theorem parser_output_reaches_traversal_throw:
  \<open>tokenizer ''"foo"'' = Some (Inr [\<lparr>tk_type = ''string'', tk_value = ''foo''\<rparr>]) \<and>
   parser [\<lparr>tk_type = ''string'', tk_value = ''foo''\<rparr>] = Inr (Program [stringLiteral ''foo'']) \<and>
   transform (Program [stringLiteral ''foo'']) = Inl (TraversalThrow ''stringLiteral'')\<close>
  by code_simp

text \<open>
  C3, as stated: for the input \<^verbatim>\<open>(add 2\<close> the parser detects the end of the tokens and
  reports a parse error of its own. It does not: the failure of \<open>compile\<close> is not one
  thrown by the parser's \<^verbatim>\<open>throw\<close> statement.
\<close>

theorem unbalanced_input_not_a_parser_throw:
  "\<not> fails_with is_ParserThrow (compile ''(add 2'')"
  by code_simp

text \<open>
  C3, amended: for the input \<^verbatim>\<open>(add 2\<close> \<open>compile\<close> fails in the parser, and the failure
  is the runtime's error for reading \<^verbatim>\<open>type\<close> of \<^verbatim>\<open>tokens[3]\<close>, which is
  \<^verbatim>\<open>undefined\<close>, in the condition of the loop at line 153.
\<close>

theorem unbalanced_input_reads_past_the_tokens:
  "tokenizer ''(add 2'' =
     Some (Inr [\<lparr>tk_type = ''parenthesis'', tk_value = ''(''\<rparr>,
                \<lparr>tk_type = ''name'', tk_value = ''add''\<rparr>,
                \<lparr>tk_type = ''number'', tk_value = ''2''\<rparr>]) \<and>
   parser [\<lparr>tk_type = ''parenthesis'', tk_value = ''(''\<rparr>,
           \<lparr>tk_type = ''name'', tk_value = ''add''\<rparr>,
           \<lparr>tk_type = ''number'', tk_value = ''2''\<rparr>] = Inl (ReadOfUndefined ''type'') \<and>
   compile ''(add 2'' = Some (Inl (ReadOfUndefined ''type''))"
  by code_simp

text \<open>
  C4. The claim is that the tokenizer returns on every input whose quotes are matched.
  The input \<^verbatim>\<open>add\<close> has no quote, and the tokenizer does not return on it: the letter
  loop of lines 80 to 83 runs past the end of the input and never stops, as it does on
  every input that ends with a letter of a name (\<open>tokenizer_loop_trailing_name\<close>).
\<close>

theorem tokenizer_diverges_on_trailing_name: "tokenizer ''add'' = None"
  unfolding tokenizer_def
  by (rule tokenizer_loop_trailing_name [of _ _ "''add''"]) (simp_all add: is_letter_def)

text \<open>
  C5, as stated: every well-formed program compiles to a non-empty text. The empty
  program is well formed (\<^verbatim>\<open>program := expr*\<close>), and it compiles to the empty text.
\<close>

theorem empty_program_compiles_to_empty_text:
  "well_formed_program [] [] \<and> program_text [] [] = [] \<and>
   compile (program_text [] []) = Some (Inr [])"
  by code_simp

text \<open>
  C5, amended: a well-formed program with at least one expression and with no string in
  it compiles to a text that is not empty and has one line for each expression of the
  program's body, in order: the line of an expression is its statement.
\<close>

theorem one_line_per_expression:
  assumes "well_formed_program w0 es" and "es \<noteq> []" and "\<not> list_ex has_string es"
  shows "\<exists>out. compile (program_text w0 es) = Some (Inr out) \<and> out \<noteq> [] \<and>
           split_lines out = map emit_statement es \<and> length (split_lines out) = length es"
proof -
  from assms have c: "compile (program_text w0 es) = Some (Inr (emit_program es))"
    by (simp add: compile_program)
  from assms have "\<forall>x\<in>set (map emit_statement es). CHR 0x0A \<notin> set x"
    by (auto simp: well_formed_program_def list_all_iff list_ex_iff emit_statement_no_newline)
  with assms(2) have s: "split_lines (emit_program es) = map emit_statement es"
    unfolding emit_program_def by (intro split_lines_join) auto
  from assms have "\<forall>x\<in>set (map emit_statement es). x \<noteq> []"
    by (auto simp: well_formed_program_def list_all_iff emit_statement_not_empty)
  with assms(2) have n: "emit_program es \<noteq> []"
    unfolding emit_program_def by (intro join_not_empty) auto
  from c s n show ?thesis by simp
qed

theorem one_line_per_expression_witness:
  "well_formed_program [] [Call [] ''a'' '' '' [Num ''1'' []] '' '', Call [] ''b'' '' '' [Num ''2'' []] []] \<and>
   program_text [] [Call [] ''a'' '' '' [Num ''1'' []] '' '', Call [] ''b'' '' '' [Num ''2'' []] []] =
     ''(a 1) (b 2)'' \<and>
   (\<exists>out. compile ''(a 1) (b 2)'' = Some (Inr out) \<and> out \<noteq> [] \<and>
      split_lines out = [''a(1);'', ''b(2);''] \<and> length (split_lines out) = 2)"
proof -
  let ?es = "[Call [] ''a'' '' '' [Num ''1'' []] '' '', Call [] ''b'' '' '' [Num ''2'' []] []]"
  have h: "well_formed_program [] ?es"
    by (simp add: well_formed_program_def is_letter_def is_digit_def is_space_def)
  have t: "program_text [] ?es = ''(a 1) (b 2)''"
    by (simp add: program_text_def)
  show ?thesis
    using h t one_line_per_expression [OF h, simplified t]
    by (auto simp: emit_statement_def)
qed


text \<open>
  C6. For every well-formed program with no string in it: \<open>compile\<close> returns the
  statements of the program joined by newlines, where a call of the program's body is
  written as \<open>emit\<close> of it followed by one semicolon, and \<open>emit\<close> writes a call that is an
  argument of another call in place, between the other arguments, as
  \<^verbatim>\<open>name(arguments)\<close>; no semicolon is in what \<open>emit\<close> writes. In the new tree a call of
  the program's body stands in an \<^verbatim>\<open>ExpressionStatement\<close>, and no
  \<^verbatim>\<open>ExpressionStatement\<close> is inside the node of any expression. The input
  \<^verbatim>\<open>(add 2 (subtract 4 2))\<close> compiles to \<^verbatim>\<open>add(2, subtract(4, 2));\<close>.
\<close>

theorem nested_call_is_inline:
  assumes "well_formed_program w0 es" and "\<not> list_ex has_string es"
  shows "compile (program_text w0 es) =
           Some (Inr (join (map (\<lambda>e. if is_Call e then emit e @ '';'' else emit e) es)
                        [CHR 0x0A])) \<and>
         (\<forall>e\<in>set es. CHR '';'' \<notin> set (emit e)) \<and>
         transform (Program (map ast es)) =
           Inr (TProgram (map (\<lambda>e. if is_Call e then TExpressionStatement (new_node e)
                                     else new_node e) es)) \<and>
         (\<forall>e\<in>set es. \<not> has_statement (new_node e)) \<and>
         compile ''(add 2 (subtract 4 2))'' = Some (Inr ''add(2, subtract(4, 2));'')"
proof -
  have m: "map emit_statement es = map (\<lambda>e. if is_Call e then emit e @ '';'' else emit e) es"
    by (simp add: emit_statement_def)
  from assms have 1: "compile (program_text w0 es) =
      Some (Inr (join (map (\<lambda>e. if is_Call e then emit e @ '';'' else emit e) es) [CHR 0x0A]))"
    by (simp add: compile_program emit_program_def m)
  from assms have 2: "\<forall>e\<in>set es. CHR '';'' \<notin> set (emit e)"
    by (auto simp: well_formed_program_def list_all_iff list_ex_iff emit_no_semicolon)
  have s: "map statement es = map (\<lambda>e. if is_Call e then TExpressionStatement (new_node e)
                                     else new_node e) es"
    by (simp add: statement_def)
  from assms(2) have 3: "transform (Program (map ast es)) =
      Inr (TProgram (map (\<lambda>e. if is_Call e then TExpressionStatement (new_node e)
                                     else new_node e) es))"
    by (simp add: transform_program s)
  have 4: "\<forall>e\<in>set es. \<not> has_statement (new_node e)"
    by (simp add: new_node_no_statement)
  have 5: "compile ''(add 2 (subtract 4 2))'' = Some (Inr ''add(2, subtract(4, 2));'')"
    by code_simp
  from 1 2 3 4 5 show ?thesis by blast
qed

theorem nested_call_is_inline_witness:
  "well_formed_program []
     [Call [] ''f'' '' '' [Num ''1'' '' '', Num ''2'' '' '', Call [] ''g'' '' '' [Num ''3'' []] []] []] \<and>
   compile ''(f 1 2 (g 3))'' = Some (Inr ''f(1, 2, g(3));'') \<and>
   transform (Program [CallExpression ''f''
       [NumberLiteral ''1'', NumberLiteral ''2'', CallExpression ''g'' [NumberLiteral ''3'']]]) =
     Inr (TProgram [TExpressionStatement (TCallExpression (TIdentifier ''f'')
       [TNumberLiteral ''1'', TNumberLiteral ''2'',
        TCallExpression (TIdentifier ''g'') [TNumberLiteral ''3'']])])"
proof -
  let ?es = "[Call [] ''f'' '' '' [Num ''1'' '' '', Num ''2'' '' '', Call [] ''g'' '' '' [Num ''3'' []] []] []]"
  have h: "well_formed_program [] ?es"
    by (simp add: well_formed_program_def is_letter_def is_digit_def is_space_def)
  have n: "\<not> list_ex has_string ?es" by simp
  have t: "program_text [] ?es = ''(f 1 2 (g 3))''"
    by (simp add: program_text_def)
  show ?thesis
    using h nested_call_is_inline [OF h n, simplified t] by simp
qed

text \<open>
  C7. In \<open>walk\<close> the name of a call is the text of the token after the opening
  parenthesis, whatever the type of that token. The input \<^verbatim>\<open>(2 3)\<close> is parsed as a call
  named \<^verbatim>\<open>2\<close> and compiles to \<^verbatim>\<open>2(3);\<close>.
\<close>

theorem callee_is_the_next_token:
  assumes "token_at tokens cur = Some token"
    and "tk_type token = ''parenthesis''" and "tk_value token = ''(''"
    and "token_at tokens (cur + 1) = Some name_token"
    and "walk_params tokens (cur + 2) [] = Inr (params, cur')"
  shows "walk tokens cur = Inr (CallExpression (tk_value name_token) params, cur' + 1) \<and>
         parser [\<lparr>tk_type = ''parenthesis'', tk_value = ''(''\<rparr>,
                 \<lparr>tk_type = ''number'', tk_value = ''2''\<rparr>,
                 \<lparr>tk_type = ''number'', tk_value = ''3''\<rparr>,
                 \<lparr>tk_type = ''parenthesis'', tk_value = '')''\<rparr>] =
           Inr (Program [CallExpression ''2'' [NumberLiteral ''3'']]) \<and>
         compile ''(2 3)'' = Some (Inr ''2(3);'')"
proof -
  have "parser [\<lparr>tk_type = ''parenthesis'', tk_value = ''(''\<rparr>,
                 \<lparr>tk_type = ''number'', tk_value = ''2''\<rparr>,
                 \<lparr>tk_type = ''number'', tk_value = ''3''\<rparr>,
                 \<lparr>tk_type = ''parenthesis'', tk_value = '')''\<rparr>] =
           Inr (Program [CallExpression ''2'' [NumberLiteral ''3'']]) \<and>
        compile ''(2 3)'' = Some (Inr ''2(3);'')"
    by code_simp
  with assms show ?thesis
    by (simp add: walk.simps [of tokens cur])
qed

theorem callee_is_the_next_token_witness:
  "walk [\<lparr>tk_type = ''parenthesis'', tk_value = ''(''\<rparr>,
         \<lparr>tk_type = ''number'', tk_value = ''2''\<rparr>,
         \<lparr>tk_type = ''number'', tk_value = ''3''\<rparr>,
         \<lparr>tk_type = ''parenthesis'', tk_value = '')''\<rparr>] 0 =
     Inr (CallExpression ''2'' [NumberLiteral ''3''], 4)"
proof -
  let ?tokens = "[\<lparr>tk_type = ''parenthesis'', tk_value = ''(''\<rparr>,
         \<lparr>tk_type = ''number'', tk_value = ''2''\<rparr>,
         \<lparr>tk_type = ''number'', tk_value = ''3''\<rparr>,
         \<lparr>tk_type = ''parenthesis'', tk_value = '')''\<rparr>]"
  have h1: "token_at ?tokens 0 = Some \<lparr>tk_type = ''parenthesis'', tk_value = ''(''\<rparr>"
    by (simp add: token_at_def)
  have h2: "token_at ?tokens (0 + 1) = Some \<lparr>tk_type = ''number'', tk_value = ''2''\<rparr>"
    by (simp add: token_at_def)
  have h3: "walk_params ?tokens (0 + 2) [] = Inr ([NumberLiteral ''3''], 3)"
    by code_simp
  show ?thesis
    using callee_is_the_next_token [OF h1 _ _ h2 h3] by simp
qed

text \<open>
  C8. For every well-formed program of calls, however many, with no string in it:
  \<open>compile\<close> returns the statements of the calls, each \<open>emit\<close> of the call followed by a
  semicolon, joined by one newline character between two of them, in the order of the
  source; no statement holds a newline, so line \<open>i\<close> of the output is the statement of
  expression \<open>i\<close>. The input \<^verbatim>\<open>(a 1) (b 2)\<close> compiles to \<^verbatim>\<open>a(1);\<close>, a newline,
  \<^verbatim>\<open>b(2);\<close>.
\<close>

theorem statements_joined_by_newline:
  assumes "well_formed_program w0 es" and "\<not> list_ex has_string es" and "list_all is_Call es"
  shows "compile (program_text w0 es) =
           Some (Inr (join (map (\<lambda>e. emit e @ '';'') es) [CHR 0x0A])) \<and>
         (\<forall>e\<in>set es. CHR 0x0A \<notin> set (emit e @ '';'')) \<and>
         parser (concat (map toks es)) = Inr (Program (map ast es)) \<and>
         (\<forall>i<length es.
            split_lines (join (map (\<lambda>e. emit e @ '';'') es) [CHR 0x0A]) ! i =
              emit (es ! i) @ '';'') \<and>
         compile ''(a 1) (b 2)'' = Some (Inr (''a(1);'' @ [CHR 0x0A] @ ''b(2);''))"
proof -
  from assms(3) have m: "map emit_statement es = map (\<lambda>e. emit e @ '';'') es"
    by (simp add: emit_statement_def list_all_iff)
  from assms have 1: "compile (program_text w0 es) =
      Some (Inr (join (map (\<lambda>e. emit e @ '';'') es) [CHR 0x0A]))"
    by (simp add: compile_program emit_program_def m)
  from assms have 2: "\<forall>e\<in>set es. CHR 0x0A \<notin> set (emit e @ '';'')"
    by (auto simp: well_formed_program_def list_all_iff list_ex_iff emit_no_newline)
  have 3: "parser (concat (map toks es)) = Inr (Program (map ast es))"
    by (rule parser_program)
  have 4: "\<forall>i<length es.
            split_lines (join (map (\<lambda>e. emit e @ '';'') es) [CHR 0x0A]) ! i =
              emit (es ! i) @ '';''"
  proof (intro allI impI)
    fix i assume i: "i < length es"
    then have ne: "es \<noteq> []" by auto
    from 2 have "\<forall>x\<in>set (map (\<lambda>e. emit e @ '';'') es). CHR 0x0A \<notin> set x" by auto
    with ne have "split_lines (join (map (\<lambda>e. emit e @ '';'') es) [CHR 0x0A]) =
        map (\<lambda>e. emit e @ '';'') es"
      by (intro split_lines_join) auto
    with i show "split_lines (join (map (\<lambda>e. emit e @ '';'') es) [CHR 0x0A]) ! i = emit (es ! i) @ '';''"
      by simp
  qed
  have 5: "compile ''(a 1) (b 2)'' = Some (Inr (''a(1);'' @ [CHR 0x0A] @ ''b(2);''))"
    by code_simp
  from 1 2 3 4 5 show ?thesis by blast
qed

theorem statements_joined_by_newline_witness:
  "well_formed_program []
     [Call [] ''a'' '' '' [Num ''1'' []] '' '', Call [] ''b'' '' '' [Num ''2'' []] '' '',
      Call [] ''c'' '' '' [Num ''3'' []] []] \<and>
   compile ''(a 1) (b 2) (c 3)'' =
     Some (Inr (''a(1);'' @ [CHR 0x0A] @ ''b(2);'' @ [CHR 0x0A] @ ''c(3);''))"
proof -
  let ?es = "[Call [] ''a'' '' '' [Num ''1'' []] '' '', Call [] ''b'' '' '' [Num ''2'' []] '' '',
      Call [] ''c'' '' '' [Num ''3'' []] []]"
  have h: "well_formed_program [] ?es"
    by (simp add: well_formed_program_def is_letter_def is_digit_def is_space_def)
  have n: "\<not> list_ex has_string ?es" by simp
  have c: "list_all is_Call ?es" by simp
  have t: "program_text [] ?es = ''(a 1) (b 2) (c 3)''"
    by (simp add: program_text_def)
  show ?thesis
    using h statements_joined_by_newline [OF h n c, simplified t] by simp
qed

text \<open>
  C9. The digits of a number of the input are the digits written for it in the output:
  \<open>source_text (Num ds w)\<close> is \<open>ds\<close> and its whitespace, \<open>emit (Num ds w)\<close> is \<open>ds\<close>, and
  \<open>compile\<close> returns for the text of a well-formed program the output built by \<open>emit\<close>.
  (A program with a string in it has no output: see C1.)
\<close>

theorem number_literals_verbatim:
  assumes "well_formed_program w0 es"
  shows "compile (program_text w0 es) =
           Some (if list_ex has_string es then Inl (TraversalThrow ''stringLiteral'')
                 else Inr (emit_program es)) \<and>
         codeGenerator (TNumberLiteral ds) = ds"
  using compile_program [OF assms] by simp

theorem number_literals_verbatim_witness:
  "well_formed_program []
     [Call [] ''add'' '' '' [Num ''007'' '' '', Num ''12345678901234567890'' []] []] \<and>
   compile ''(add 007 12345678901234567890)'' =
     Some (Inr ''add(007, 12345678901234567890);'')"
proof -
  let ?es = "[Call [] ''add'' '' '' [Num ''007'' '' '', Num ''12345678901234567890'' []] []]"
  have h: "well_formed_program [] ?es"
    by (simp add: well_formed_program_def is_letter_def is_digit_def is_space_def)
  have t: "program_text [] ?es = ''(add 007 12345678901234567890)''"
    by (simp add: program_text_def)
  have e: "emit_program ?es = ''add(007, 12345678901234567890);''"
    by (simp add: emit_program_def emit_statement_def)
  show ?thesis
    using h number_literals_verbatim [OF h, simplified t e] by simp
qed

text \<open>
  C10. On the empty input, and on an input of whitespace characters only, the tokenizer
  returns no token, the parser a program with an empty body, and \<open>compile\<close> the empty
  string.
\<close>

theorem whitespace_only_compiles_to_empty:
  assumes "list_all is_space input"
  shows "tokenizer input = Some (Inr []) \<and> parser [] = Inr (Program []) \<and>
         transform (Program []) = Inr (TProgram []) \<and> codeGenerator (TProgram []) = [] \<and>
         compile input = Some (Inr [])"
proof -
  from assms have "\<forall>i\<ge>0. i < length input \<longrightarrow> is_space (input ! i)"
    by (simp add: list_all_length)
  then have t: "tokenizer input = Some (Inr [])"
    unfolding tokenizer_def by (rule tokenizer_loop_spaces)
  have p: "parser [] = Inr (Program [])"
    by (simp add: parser_def parser_loop.simps)
  have tr: "transform (Program []) = Inr (TProgram [])"
    by (simp add: transform_def nodeTraversal.simps visitor_def)
  from t p tr show ?thesis
    by (simp add: compile_def)
qed

theorem whitespace_only_compiles_to_empty_witness:
  "list_all is_space [CHR 0x20, CHR 0x09, CHR 0x0A] \<and>
   compile [CHR 0x20, CHR 0x09, CHR 0x0A] = Some (Inr []) \<and> compile [] = Some (Inr [])"
  using whitespace_only_compiles_to_empty [of "[CHR 0x20, CHR 0x09, CHR 0x0A]"]
    whitespace_only_compiles_to_empty [of "[]"]
  by (simp add: is_space_def)

end
